theory Spec2Isabelle
  imports Complex_Main "HOL-Library.Extended_Nat" "HOL-Library.Char_ord"
    "HOL-Library.List_Lexorder" "HOL-Library.Product_Lexorder" "HOL-Library.AList"
begin

section \<open>Smart parking simulator: a shallow embedding\<close>

text \<open>
  The Python classes \<^verbatim>\<open>ParkingSpot\<close>, \<^verbatim>\<open>Vehicle\<close>, \<^verbatim>\<open>ParkingFacility\<close>,
  \<^verbatim>\<open>ComparisonAlgorithms\<close> and \<^verbatim>\<open>SmartParkingSimulator\<close> are translated method by
  method. Objects are records, methods take the object and return it updated, a raised
  exception is the left injection of a sum. Readings of \<^verbatim>\<open>time.time()\<close> are explicit
  arguments; Python floats are idealised as reals.
\<close>

datatype py_error = KeyError | TypeError | IndexError | ValueError | OverflowError | Diverged

subsection \<open>ParkingSpot.py\<close>

record parking_spot =
  spot_id :: string
  location :: "int \<times> int"
  spot_type :: string
  spot_floor :: int
  occupied :: bool
  reserved :: bool
  vehicle_id :: "string option"
  occupied_since :: "real option"
  reserved_until :: "real option"

definition ParkingSpot :: "string \<Rightarrow> int \<times> int \<Rightarrow> string \<Rightarrow> int \<Rightarrow> parking_spot" where
  "ParkingSpot sid loc ty fl =
     \<lparr>spot_id = sid, location = loc, spot_type = ty, spot_floor = fl,
      occupied = False, reserved = False, vehicle_id = None,
      occupied_since = None, reserved_until = None\<rparr>"

text \<open>\<^verbatim>\<open>occupy\<close> returns the flag and the spot; \<open>now\<close> is the reading of the clock.\<close>

definition occupy :: "parking_spot \<Rightarrow> string \<Rightarrow> real \<Rightarrow> bool \<times> parking_spot" where
  "occupy s vid now =
     (if occupied s \<or> reserved s then (False, s)
      else (True, s\<lparr>occupied := True, vehicle_id := Some vid, occupied_since := Some now\<rparr>))"

text \<open>
  \<^verbatim>\<open>vacate\<close> returns \<^verbatim>\<open>False\<close> (here \<open>None\<close>) or the duration in seconds. The
  subtraction \<^verbatim>\<open>time.time() - self.occupied_since\<close> raises \<^verbatim>\<open>TypeError\<close> when
  \<^verbatim>\<open>occupied_since\<close> is \<^verbatim>\<open>None\<close>; the two flag assignments before it are then
  already done, but the exception leaves no result to the caller.
\<close>

definition vacate :: "parking_spot \<Rightarrow> real \<Rightarrow> py_error + (real option \<times> parking_spot)" where
  "vacate s now =
     (if \<not> occupied s then Inr (None, s)
      else case occupied_since s of
             None \<Rightarrow> Inl TypeError
           | Some since \<Rightarrow>
               Inr (Some (now - since),
                    s\<lparr>occupied := False, vehicle_id := None, occupied_since := None\<rparr>))"

definition reserve :: "parking_spot \<Rightarrow> real \<Rightarrow> real \<Rightarrow> bool \<times> parking_spot" where
  "reserve s duration now =
     (if occupied s \<or> reserved s then (False, s)
      else (True, s\<lparr>reserved := True, reserved_until := Some (now + duration * 60)\<rparr>))"

definition cancel_reservation :: "parking_spot \<Rightarrow> bool \<times> parking_spot" where
  "cancel_reservation s =
     (if \<not> reserved s then (False, s)
      else (True, s\<lparr>reserved := False, reserved_until := None\<rparr>))"

definition get_status :: "parking_spot \<Rightarrow> string" where
  "get_status s =
     (if occupied s then ''occupied'' else if reserved s then ''reserved'' else ''available'')"

text \<open>A call of one of the four transition methods, with its arguments and clock reading.\<close>

datatype spot_call =
    Occupy string real
  | Vacate real
  | Reserve real real
  | CancelReservation

fun spot_step :: "parking_spot \<Rightarrow> spot_call \<Rightarrow> py_error + parking_spot" where
  "spot_step s (Occupy vid now) = Inr (snd (occupy s vid now))"
| "spot_step s (Vacate now) = map_sum id snd (vacate s now)"
| "spot_step s (Reserve duration now) = Inr (snd (reserve s duration now))"
| "spot_step s CancelReservation = Inr (snd (cancel_reservation s))"

fun spot_run :: "parking_spot \<Rightarrow> spot_call list \<Rightarrow> py_error + parking_spot" where
  "spot_run s [] = Inr s"
| "spot_run s (c # cs) =
     (case spot_step s c of Inl e \<Rightarrow> Inl e | Inr s' \<Rightarrow> spot_run s' cs)"

definition spot_inv :: "parking_spot \<Rightarrow> bool" where
  "spot_inv s \<longleftrightarrow>
     \<not> (occupied s \<and> reserved s) \<and>
     (vehicle_id s \<noteq> None) = occupied s \<and>
     (occupied_since s \<noteq> None) = occupied s \<and>
     (reserved_until s \<noteq> None) = reserved s"

subsection \<open>Vehicle.py\<close>

text \<open>
  A Python float that may be \<^verbatim>\<open>float('inf')\<close>: the arrival time of a vehicle and the
  simulation clock.
\<close>

datatype pyfloat = Fin real | PInf

record vehicle =
  v_id :: string
  v_type :: string
  arrival_time :: pyfloat
  expected_duration :: real
  assigned_spot :: "string option"
  preferences :: "(string \<times> bool) list"

definition Vehicle :: "string \<Rightarrow> string \<Rightarrow> pyfloat \<Rightarrow> real \<Rightarrow> vehicle" where
  "Vehicle vid ty arr dur =
     \<lparr>v_id = vid, v_type = ty, arrival_time = arr, expected_duration = dur,
      assigned_spot = None, preferences = []\<rparr>"

definition set_preferences :: "vehicle \<Rightarrow> (string \<times> bool) list \<Rightarrow> vehicle" where
  "set_preferences v prefs = v\<lparr>preferences := prefs\<rparr>"

definition assign_spot :: "vehicle \<Rightarrow> string \<Rightarrow> vehicle" where
  "assign_spot v sid = v\<lparr>assigned_spot := Some sid\<rparr>"

subsection \<open>ParkingFacility.py: the navigation graph\<close>

text \<open>
  Node identifiers are the strings \<^verbatim>\<open>f"{floor}-{x}-{y}"\<close>; \<open>str_int\<close> is Python's
  \<^verbatim>\<open>str\<close> on an integer. The graph is a dictionary from a node to the list of its
  neighbours, kept as an association list in insertion order.
\<close>

type_synonym node = string
type_synonym nav_graph = "(node \<times> node list) list"

definition digit_char :: "nat \<Rightarrow> char" where
  "digit_char n = ''0123456789'' ! n"

fun str_nat :: "nat \<Rightarrow> string" where
  "str_nat n = (if n < 10 then [digit_char n] else str_nat (n div 10) @ [digit_char (n mod 10)])"

declare str_nat.simps [simp del]

definition str_int :: "int \<Rightarrow> string" where
  "str_int i = (if i < 0 then CHR ''-'' # str_nat (nat (- i)) else str_nat (nat i))"

definition node_id :: "int \<Rightarrow> int \<Rightarrow> int \<Rightarrow> node" where
  "node_id fl x y = str_int fl @ ''-'' @ str_int x @ ''-'' @ str_int y"

record facility_layout =
  dimensions :: "int \<times> int"
  floors :: int
  spot_types :: "(string \<times> real) list"
  entrances :: "(int \<times> int) list"
  exits :: "(int \<times> int) list"
  aisles :: "(int \<times> int) list"

definition default_layout :: facility_layout where
  "default_layout =
     \<lparr>dimensions = (20, 15), floors = 1,
      spot_types = [(''standard'', 0.8), (''handicap'', 0.1), (''electric'', 0.1)],
      entrances = [(0, 7)], exits = [(19, 7)],
      aisles = concat (map (\<lambda>x. map (\<lambda>y. (x, y)) [3, 7, 11]) [0..19])\<rparr>"

definition directions :: "(int \<times> int) list" where
  "directions = [(0, 1), (1, 0), (0, -1), (-1, 0)]"

definition neighbours :: "int \<Rightarrow> int \<Rightarrow> int \<Rightarrow> int \<Rightarrow> int \<Rightarrow> node list" where
  "neighbours width height fl x y =
     map (\<lambda>d. node_id fl (x + fst d) (y + snd d))
       (filter (\<lambda>d. 0 \<le> x + fst d \<and> x + fst d < width \<and> 0 \<le> y + snd d \<and> y + snd d < height)
          directions)"

text \<open>
  The first loop nest of \<^verbatim>\<open>_build_navigation_graph\<close>: the entry of a cell is created
  empty and filled with the in-range neighbours in the same iteration.
\<close>

definition add_cells :: "int \<Rightarrow> int \<Rightarrow> int \<Rightarrow> nav_graph" where
  "add_cells width height fls =
     fold (\<lambda>fl g.
        fold (\<lambda>y g.
           fold (\<lambda>x g. AList.update (node_id fl x y) (neighbours width height fl x y) g)
             [0..width - 1] g)
          [0..height - 1] g)
       [0..fls - 1] []"

text \<open>
  The second loop nest: \<^verbatim>\<open>self.graph[node_id1].append(node_id2)\<close> and its mirror,
  each raising \<^verbatim>\<open>KeyError\<close> on a node that is not in the graph.
\<close>

definition connect_floors :: "int \<Rightarrow> int \<times> int \<Rightarrow> nav_graph \<Rightarrow> py_error + nav_graph" where
  "connect_floors fl entrance g =
     (let node_id1 = node_id fl (fst entrance) (snd entrance);
          node_id2 = node_id (fl + 1) (fst entrance) (snd entrance)
      in case map_of g node_id1 of
           None \<Rightarrow> Inl KeyError
         | Some l1 \<Rightarrow>
             (let g1 = AList.update node_id1 (l1 @ [node_id2]) g
              in case map_of g1 node_id2 of
                   None \<Rightarrow> Inl KeyError
                 | Some l2 \<Rightarrow> Inr (AList.update node_id2 (l2 @ [node_id1]) g1)))"

fun fold_err :: "('a \<Rightarrow> 's \<Rightarrow> py_error + 's) \<Rightarrow> 'a list \<Rightarrow> 's \<Rightarrow> py_error + 's" where
  "fold_err f [] s = Inr s"
| "fold_err f (x # xs) s = (case f x s of Inl e \<Rightarrow> Inl e | Inr s' \<Rightarrow> fold_err f xs s')"

definition build_navigation_graph :: "facility_layout \<Rightarrow> py_error + nav_graph" where
  "build_navigation_graph lay =
     (let width = fst (dimensions lay); height = snd (dimensions lay)
      in fold_err (\<lambda>fl g. fold_err (connect_floors fl) (entrances lay) g)
           [0..floors lay - 2] (add_cells width height (floors lay)))"

subsection \<open>ParkingFacility.py: the shortest-path query\<close>

text \<open>
  \<^verbatim>\<open>distances\<close> and \<^verbatim>\<open>previous\<close> are dictionaries, the priority queue is the list
  that \<^verbatim>\<open>heapq\<close> keeps: \<^verbatim>\<open>heappop\<close> returns its least pair (distance first, then
  the node string), \<^verbatim>\<open>heappush\<close> adds a pair. A distance is a Python integer or
  \<^verbatim>\<open>float('inf')\<close>.
\<close>

type_synonym dstate =
  "(node \<times> enat) list \<times> (node \<times> node option) list \<times> (nat \<times> node) list"

text \<open>The \<^verbatim>\<open>for neighbor in self.graph[current_node]\<close> loop.\<close>

fun relax :: "nat \<Rightarrow> node \<Rightarrow> node list \<Rightarrow> dstate \<Rightarrow> py_error + dstate" where
  "relax d u [] st = Inr st"
| "relax d u (v # vs) (distances, previous, pq) =
     (case map_of distances v of
        None \<Rightarrow> Inl KeyError
      | Some dv \<Rightarrow>
          if enat (d + 1) < dv
          then relax d u vs (AList.update v (enat (d + 1)) distances,
                             AList.update v (Some u) previous,
                             pq @ [(d + 1, v)])
          else relax d u vs (distances, previous, pq))"

text \<open>
  The \<^verbatim>\<open>while pq\<close> loop ends: every push lowers a recorded distance, and an iteration
  that pushes nothing shortens the queue.
\<close>

definition count_inf :: "(node \<times> enat) list \<Rightarrow> nat" where
  "count_inf ds = length (filter (\<lambda>p. snd p = \<infinity>) ds)"

definition sum_fin :: "(node \<times> enat) list \<Rightarrow> nat" where
  "sum_fin ds = sum_list (map (\<lambda>p. case snd p of enat n \<Rightarrow> n | \<infinity> \<Rightarrow> 0) ds)"

lemma update_measure:
  "map_of ds v = Some dv \<Longrightarrow> enat n < dv \<Longrightarrow>
   count_inf (AList.update v (enat n) ds) < count_inf ds \<or>
   (count_inf (AList.update v (enat n) ds) = count_inf ds \<and>
    sum_fin (AList.update v (enat n) ds) < sum_fin ds)"
proof (induction ds)
  case Nil
  then show ?case by simp
next
  case (Cons p ds)
  obtain k x where p: "p = (k, x)" by (cases p)
  show ?case
  proof (cases "k = v")
    case True
    with Cons.prems p have "x = dv" by simp
    with Cons.prems True p show ?thesis
      by (cases dv) (auto simp: count_inf_def sum_fin_def)
  next
    case False
    with Cons p show ?thesis
      by (auto simp: count_inf_def sum_fin_def)
  qed
qed


definition dlt :: "(node \<times> enat) list \<Rightarrow> (node \<times> enat) list \<Rightarrow> bool" where
  "dlt ds' ds \<longleftrightarrow>
     count_inf ds' < count_inf ds \<or> (count_inf ds' = count_inf ds \<and> sum_fin ds' < sum_fin ds)"

lemma dlt_trans: "dlt a b \<Longrightarrow> dlt b c \<Longrightarrow> dlt a c"
  by (auto simp: dlt_def)

lemma relax_measure:
  "relax d u vs st = Inr st' \<Longrightarrow> st' = st \<or> dlt (fst st') (fst st)"
proof (induction d u vs st rule: relax.induct)
  case (1 d u st)
  then show ?case by simp
next
  case (2 d u v vs distances previous pq)
  from "2.prems" obtain dv where dv: "map_of distances v = Some dv"
    by (auto split: option.splits)
  show ?case
  proof (cases "enat (d + 1) < dv")
    case True
    let ?st1 = "(AList.update v (enat (d + 1)) distances,
                 AList.update v (Some u) previous, pq @ [(d + 1, v)])"
    from "2.prems" dv True have "relax d u vs ?st1 = Inr st'" by simp
    from "2.IH"(1) [OF dv True this]
    have "st' = ?st1 \<or> dlt (fst st') (fst ?st1)" .
    moreover from update_measure [OF dv True]
    have "dlt (fst ?st1) distances" by (simp add: dlt_def)
    ultimately show ?thesis by (auto intro: dlt_trans)
  next
    case False
    with "2.prems" dv have "relax d u vs (distances, previous, pq) = Inr st'" by simp
    from "2.IH"(2) [OF dv False this] show ?thesis .
  qed
qed

lemma min_list_in: "xs \<noteq> [] \<Longrightarrow> min_list xs \<in> set (xs :: ('a::linorder) list)"
  by (simp add: min_list_Min)

lemma length_remove1_less: "x \<in> set xs \<Longrightarrow> length (remove1 x xs) < length xs"
  using length_pos_if_in_set [of x xs] by (simp add: length_remove1)

lemma pop_shorter: "pq \<noteq> [] \<Longrightarrow> length (remove1 (min_list pq) pq) < length (pq :: ('a::linorder) list)"
  by (rule length_remove1_less [OF min_list_in])

function dijkstra_loop :: "nav_graph \<Rightarrow> node \<Rightarrow> dstate \<Rightarrow> py_error + dstate" where
  "dijkstra_loop g target (distances, previous, pq) =
     (if pq = [] then Inr (distances, previous, pq)
      else
        let cur = min_list pq; pq' = remove1 cur pq
        in if snd cur = target then Inr (distances, previous, pq')
           else case map_of distances (snd cur) of
                  None \<Rightarrow> Inl KeyError
                | Some dcur \<Rightarrow>
                    if dcur < enat (fst cur) then dijkstra_loop g target (distances, previous, pq')
                    else case map_of g (snd cur) of
                           None \<Rightarrow> Inl KeyError
                         | Some ns \<Rightarrow>
                             (case relax (fst cur) (snd cur) ns (distances, previous, pq') of
                                Inl e \<Rightarrow> Inl e
                              | Inr st' \<Rightarrow> dijkstra_loop g target st'))"
  by pat_completeness auto
termination
proof (relation "measures [\<lambda>(g, t, ds, pv, pq). count_inf ds, \<lambda>(g, t, ds, pv, pq). sum_fin ds,
                          \<lambda>(g, t, ds, pv, pq). length pq]", goal_cases)
  case 1
  then show ?case by simp
next
  case (2 g target distances previous pq cur pq' dcur)
  then show ?case using pop_shorter [of pq] by simp
next
  case (3 g target distances previous pq cur pq' dcur ns st')
  then have len: "length pq' < length pq" using pop_shorter [of pq] by simp
  obtain ds1 pv1 pq1 where st': "st' = (ds1, pv1, pq1)" by (cases st')
  from 3 have "relax (fst cur) (snd cur) ns (distances, previous, pq') = Inr st'" by simp
  from relax_measure [OF this]
  have "st' = (distances, previous, pq') \<or> dlt (fst st') distances" by simp
  then show ?case using len st' by (auto simp: dlt_def)
qed



text \<open>
  The path is rebuilt by the loop \<^verbatim>\<open>while current: path.append(current); current =
  previous[current]\<close>, which stops at \<^verbatim>\<open>None\<close> and at the empty string. The fuel is
  the number of entries of \<^verbatim>\<open>previous\<close> plus one; running out of it is the outcome
  \<open>Diverged\<close>.
\<close>

fun reconstruct ::
  "nat \<Rightarrow> (node \<times> node option) list \<Rightarrow> node option \<Rightarrow> node list \<Rightarrow> py_error + node list" where
  "reconstruct fuel previous None path = Inr path"
| "reconstruct fuel previous (Some c) path =
     (if c = [] then Inr path
      else case fuel of
             0 \<Rightarrow> Inl Diverged
           | Suc n \<Rightarrow>
               (case map_of previous c of
                  None \<Rightarrow> Inl KeyError
                | Some p \<Rightarrow> reconstruct n previous p (path @ [c])))"

definition dijkstra :: "nav_graph \<Rightarrow> node \<Rightarrow> node \<Rightarrow> py_error + (enat \<times> node list)" where
  "dijkstra g start target =
     (let distances = AList.update start 0 (map (\<lambda>node. (node, \<infinity>)) (map fst g));
          pq = [(0, start)];
          previous = map (\<lambda>node. (node, None)) (map fst g)
      in case dijkstra_loop g target (distances, previous, pq) of
           Inl e \<Rightarrow> Inl e
         | Inr (distances', previous', pq') \<Rightarrow>
             (case reconstruct (Suc (length previous')) previous' (Some target) [] of
                Inl e \<Rightarrow> Inl e
              | Inr path \<Rightarrow>
                  (case map_of distances' target of
                     None \<Rightarrow> Inl KeyError
                   | Some d \<Rightarrow> Inr (d, rev path))))"

definition edge :: "nav_graph \<Rightarrow> node \<Rightarrow> node \<Rightarrow> bool" where
  "edge g u v = (case map_of g u of None \<Rightarrow> False | Some ns \<Rightarrow> v \<in> set ns)"

fun is_path :: "nav_graph \<Rightarrow> node list \<Rightarrow> bool" where
  "is_path g [] = False"
| "is_path g [x] = True"
| "is_path g (x # y # zs) = (edge g x y \<and> is_path g (y # zs))"

definition connects :: "nav_graph \<Rightarrow> node \<Rightarrow> node \<Rightarrow> node list \<Rightarrow> bool" where
  "connects g s t p \<longleftrightarrow> is_path g p \<and> hd p = s \<and> last p = t"

definition closed_graph :: "nav_graph \<Rightarrow> bool" where
  "closed_graph g \<longleftrightarrow> (\<forall>u v. edge g u v \<longrightarrow> map_of g v \<noteq> None) \<and> map_of g [] = None"


subsection \<open>ParkingFacility.py: the facility\<close>

record facility_statistics =
  total_vehicles :: int
  avg_occupancy_rate :: real
  avg_search_time :: real
  revenue :: real

text \<open>
  The fields of \<^verbatim>\<open>ParkingFacility\<close>. The dictionaries \<^verbatim>\<open>spots\<close> and
  \<^verbatim>\<open>vehicles\<close> are association lists in insertion order. \<^verbatim>\<open>occupancy_grid\<close> is
  written once by the constructor and read by no method, and is left out.
\<close>

record facility =
  name :: string
  spots :: "(string \<times> parking_spot) list"
  vehicles :: "(string \<times> vehicle) list"
  layout :: facility_layout
  graph :: nav_graph
  total_spots :: int
  available_spots :: int
  statistics :: facility_statistics

text \<open>\<^verbatim>\<open>_determine_spot_type\<close>, with \<open>r\<close> the value of \<^verbatim>\<open>random.random()\<close>.\<close>

fun pick_spot_type :: "real \<Rightarrow> real \<Rightarrow> (string \<times> real) list \<Rightarrow> string" where
  "pick_spot_type r cumulative [] = ''standard''"
| "pick_spot_type r cumulative (info # rest) =
     (if r \<le> cumulative + snd info then fst info
      else pick_spot_type r (cumulative + snd info) rest)"

definition determine_spot_type :: "facility_layout \<Rightarrow> real \<Rightarrow> string" where
  "determine_spot_type lay r = pick_spot_type r 0 (spot_types lay)"

text \<open>
  The body of the innermost loop of \<^verbatim>\<open>_initialize_facility\<close>. The state is the
  running \<^verbatim>\<open>spot_id\<close>, the dictionary of spots and the number of random draws made
  so far; \<open>rnd\<close> is the sequence of values that \<^verbatim>\<open>random.random()\<close> returns.
\<close>

definition create_spot ::
  "facility_layout \<Rightarrow> (nat \<Rightarrow> real) \<Rightarrow> int \<Rightarrow> int \<Rightarrow> int \<Rightarrow>
   int \<times> (string \<times> parking_spot) list \<times> nat \<Rightarrow> int \<times> (string \<times> parking_spot) list \<times> nat" where
  "create_spot lay rnd fl y x st =
     (case st of (counter, sp, k) \<Rightarrow>
        if (x, y) \<in> set (aisles lay) \<or> (x, y) \<in> set (entrances lay) \<or> (x, y) \<in> set (exits lay)
        then (counter, sp, k)
        else let spot = ParkingSpot (str_int fl @ ''-'' @ str_int counter) (x, y)
                          (determine_spot_type lay (rnd k)) fl
             in (counter + 1, AList.update (spot_id spot) spot sp, Suc k))"

definition create_spots ::
  "facility_layout \<Rightarrow> (nat \<Rightarrow> real) \<Rightarrow> int \<times> (string \<times> parking_spot) list \<times> nat" where
  "create_spots lay rnd =
     fold (\<lambda>fl st.
        fold (\<lambda>y st. fold (\<lambda>x st. create_spot lay rnd fl y x st) [0..fst (dimensions lay) - 1] st)
          [0..snd (dimensions lay) - 1] st)
       [0..floors lay - 1] (1, [], 0)"

text \<open>The constructor; \<^verbatim>\<open>layout or self._default_layout()\<close> takes the default for \<^verbatim>\<open>None\<close>.\<close>

definition ParkingFacility ::
  "string \<Rightarrow> facility_layout option \<Rightarrow> (nat \<Rightarrow> real) \<Rightarrow> py_error + facility" where
  "ParkingFacility nm lay_opt rnd =
     (let lay = (case lay_opt of None \<Rightarrow> default_layout | Some l \<Rightarrow> l);
          sp = fst (snd (create_spots lay rnd))
      in case build_navigation_graph lay of
           Inl e \<Rightarrow> Inl e
         | Inr g \<Rightarrow>
             Inr \<lparr>name = nm, spots = sp, vehicles = [], layout = lay, graph = g,
                  total_spots = int (length sp), available_spots = int (length sp),
                  statistics = \<lparr>total_vehicles = 0, avg_occupancy_rate = 0,
                                avg_search_time = 0, revenue = 0\<rparr>\<rparr>)"

definition manhattan_distance :: "int \<times> int \<Rightarrow> int \<times> int \<Rightarrow> int" where
  "manhattan_distance pos1 pos2 = \<bar>fst pos1 - fst pos2\<bar> + \<bar>snd pos1 - snd pos2\<bar>"

text \<open>
  \<^verbatim>\<open>_compute_spot_preference_score\<close>. \<^verbatim>\<open>min\<close> over no entrance raises
  \<^verbatim>\<open>ValueError\<close>.
\<close>

definition type_bonus :: "parking_spot \<Rightarrow> vehicle \<Rightarrow> real" where
  "type_bonus spot v =
     (if v_type v = ''handicap'' \<and> spot_type spot = ''handicap'' then 20
      else if v_type v = ''electric'' \<and> spot_type spot = ''electric'' then 15
      else if spot_type spot = ''standard'' then 5
      else 0)"

definition compute_spot_preference_score ::
  "facility \<Rightarrow> parking_spot \<Rightarrow> vehicle \<Rightarrow> py_error + real" where
  "compute_spot_preference_score fac spot v =
     (if map_of (preferences v) ''near_entrance'' = Some True
      then (case entrances (layout fac) of
              [] \<Rightarrow> Inl ValueError
            | e # es \<Rightarrow>
                (let entrance_dist =
                       min_list (map (manhattan_distance (location spot)) (e # es))
                 in Inr (10 + real_of_int (max 0 (5 - entrance_dist)) + type_bonus spot v)))
      else Inr (10 + type_bonus spot v))"

fun map_err :: "('a \<Rightarrow> py_error + 'b) \<Rightarrow> 'a list \<Rightarrow> py_error + 'b list" where
  "map_err f [] = Inr []"
| "map_err f (x # xs) =
     (case f x of
        Inl e \<Rightarrow> Inl e
      | Inr y \<Rightarrow> (case map_err f xs of Inl e \<Rightarrow> Inl e | Inr ys \<Rightarrow> Inr (y # ys)))"

definition is_free :: "parking_spot \<Rightarrow> bool" where
  "is_free spot \<longleftrightarrow> \<not> occupied spot \<and> \<not> reserved spot"

text \<open>
  One iteration of the loop over the top spots: \<open>acc\<close> is
  \<^verbatim>\<open>(best_spot, shortest_distance)\<close>.
\<close>

definition try_spot ::
  "facility \<Rightarrow> node \<Rightarrow> string \<times> real \<Rightarrow> string option \<times> enat \<Rightarrow>
   py_error + (string option \<times> enat)" where
  "try_spot fac start_node cand acc =
     (case map_of (spots fac) (fst cand) of
        None \<Rightarrow> Inl KeyError
      | Some spot \<Rightarrow>
          (case dijkstra (graph fac) start_node
                  (node_id (spot_floor spot) (fst (location spot)) (snd (location spot))) of
             Inl e \<Rightarrow> Inl e
           | Inr res \<Rightarrow>
               Inr (if fst res < snd acc then (Some (fst cand), fst res) else acc)))"

definition find_nearest_available_spot ::
  "facility \<Rightarrow> vehicle \<Rightarrow> (int \<times> int \<times> int) option \<Rightarrow> py_error + string option" where
  "find_nearest_available_spot fac v loc =
     (if available_spots fac = 0 then Inr None
      else
        case (case loc of
                None \<Rightarrow> (case entrances (layout fac) of
                            [] \<Rightarrow> Inl IndexError
                          | e # es \<Rightarrow> Inr (0, fst e, snd e))
              | Some l \<Rightarrow> Inr l) of
          Inl e \<Rightarrow> Inl e
        | Inr pos \<Rightarrow>
            (let start_node = node_id (fst pos) (fst (snd pos)) (snd (snd pos))
             in case map_err (\<lambda>p. case compute_spot_preference_score fac (snd p) v of
                                    Inl e \<Rightarrow> Inl e
                                  | Inr score \<Rightarrow> Inr (fst p, score))
                       (filter (\<lambda>p. is_free (snd p)) (spots fac)) of
                  Inl e \<Rightarrow> Inl e
                | Inr compatible_spots \<Rightarrow>
                    if compatible_spots = [] then Inr None
                    else
                      (let top_spots = take 5 (sort_key (\<lambda>c. - snd c) compatible_spots)
                       in case fold_err (try_spot fac start_node) top_spots (None, \<infinity>) of
                            Inl e \<Rightarrow> Inl e
                          | Inr acc \<Rightarrow> Inr (fst acc))))"

text \<open>
  \<^verbatim>\<open>assign_vehicle_to_spot\<close> returns its flag, the vehicle (whose \<^verbatim>\<open>assigned_spot\<close>
  it sets) and the facility. \<open>now\<close> is the clock reading taken by \<^verbatim>\<open>occupy\<close>.
\<close>

definition assign_to ::
  "facility \<Rightarrow> vehicle \<Rightarrow> string \<Rightarrow> real \<Rightarrow> bool \<times> vehicle \<times> facility" where
  "assign_to fac v sid now =
     (case map_of (spots fac) sid of
        None \<Rightarrow> (False, v, fac)
      | Some spot \<Rightarrow>
          if occupied spot \<or> reserved spot then (False, v, fac)
          else
            (case occupy spot (v_id v) now of
               (ok, spot') \<Rightarrow>
                 if ok
                 then (let v' = assign_spot v sid
                       in (True, v',
                           fac\<lparr>spots := AList.update sid spot' (spots fac),
                               vehicles := AList.update (v_id v) v' (vehicles fac),
                               available_spots := available_spots fac - 1,
                               statistics := (statistics fac)
                                 \<lparr>total_vehicles := total_vehicles (statistics fac) + 1\<rparr>\<rparr>))
                 else (False, v, fac)))"

definition assign_vehicle_to_spot ::
  "facility \<Rightarrow> vehicle \<Rightarrow> string option \<Rightarrow> real \<Rightarrow> py_error + (bool \<times> vehicle \<times> facility)" where
  "assign_vehicle_to_spot fac v sid_opt now =
     (case sid_opt of
        None \<Rightarrow>
          (case find_nearest_available_spot fac v None of
             Inl e \<Rightarrow> Inl e
           | Inr None \<Rightarrow> Inr (False, v, fac)
           | Inr (Some sid) \<Rightarrow> Inr (assign_to fac v sid now))
      | Some sid \<Rightarrow> Inr (assign_to fac v sid now))"

text \<open>
  \<^verbatim>\<open>vacate_spot\<close> returns \<^verbatim>\<open>None\<close> or the duration in minutes. The value of
  \<^verbatim>\<open>spot.vacate()\<close> is a number of seconds here, since the spot is occupied; Python
  would read a \<^verbatim>\<open>False\<close> as 0.
\<close>

definition vacate_spot ::
  "facility \<Rightarrow> string \<Rightarrow> real \<Rightarrow> py_error + (real option \<times> facility)" where
  "vacate_spot fac sid now =
     (case map_of (spots fac) sid of
        None \<Rightarrow> Inr (None, fac)
      | Some spot \<Rightarrow>
          if \<not> occupied spot then Inr (None, fac)
          else
            (case vacate spot now of
               Inl e \<Rightarrow> Inl e
             | Inr res \<Rightarrow>
                 (let duration = (case fst res of None \<Rightarrow> 0 | Some d \<Rightarrow> d);
                      hours = duration / 3600
                  in Inr (Some (duration / 60),
                          fac\<lparr>spots := AList.update sid (snd res) (spots fac),
                              vehicles := (case vehicle_id spot of
                                             None \<Rightarrow> vehicles fac
                                           | Some vid \<Rightarrow> AList.delete vid (vehicles fac)),
                              available_spots := available_spots fac + 1,
                              statistics := (statistics fac)
                                \<lparr>revenue := revenue (statistics fac) + hours * 2\<rparr>\<rparr>))))"

record occupancy_status =
  st_total_spots :: int
  st_occupied_spots :: int
  st_available_spots :: int
  st_occupancy_rate :: real
  st_statistics :: facility_statistics
  st_by_type :: "(string \<times> int \<times> int) list"

text \<open>The \<^verbatim>\<open>defaultdict\<close> of per-type counters \<^verbatim>\<open>(total, occupied)\<close>.\<close>

definition count_spot :: "parking_spot \<Rightarrow> (string \<times> int \<times> int) list \<Rightarrow> (string \<times> int \<times> int) list" where
  "count_spot spot by_type =
     (let cur = (case map_of by_type (spot_type spot) of None \<Rightarrow> (0, 0) | Some c \<Rightarrow> c)
      in AList.update (spot_type spot)
           (fst cur + 1, if occupied spot then snd cur + 1 else snd cur) by_type)"

definition get_occupancy_status :: "facility \<Rightarrow> occupancy_status \<times> facility" where
  "get_occupancy_status fac =
     (let occupied_spots = total_spots fac - available_spots fac;
          occupancy_rate = (if total_spots fac > 0
                            then real_of_int occupied_spots / real_of_int (total_spots fac) else 0);
          stats = (statistics fac)
            \<lparr>avg_occupancy_rate :=
               avg_occupancy_rate (statistics fac) * 0.95 + occupancy_rate * 0.05\<rparr>
      in (\<lparr>st_total_spots = total_spots fac, st_occupied_spots = occupied_spots,
           st_available_spots = available_spots fac, st_occupancy_rate = occupancy_rate,
           st_statistics = stats,
           st_by_type = fold count_spot (map snd (spots fac)) []\<rparr>,
          fac\<lparr>statistics := stats\<rparr>))"

subsection \<open>ComparisonAlgorithms.py\<close>

type_synonym assignments = "(string \<times> string) list"

fun greedy_loop :: "vehicle list \<Rightarrow> string list \<Rightarrow> assignments \<Rightarrow> assignments" where
  "greedy_loop [] available asg = asg"
| "greedy_loop (v # vs) available asg =
     (case available of
        [] \<Rightarrow> greedy_loop vs available asg
      | sid # rest \<Rightarrow> greedy_loop vs rest (AList.update (v_id v) sid asg))"

definition greedy_assignment :: "facility \<Rightarrow> vehicle list \<Rightarrow> assignments" where
  "greedy_assignment fac vs =
     greedy_loop vs (map fst (filter (\<lambda>p. is_free (snd p)) (spots fac))) []"

text \<open>
  The calls \<^verbatim>\<open>facility.spots[spot_id].reserve(duration)\<close> and
  \<^verbatim>\<open>facility.spots[spot_id].cancel_reservation()\<close> on a spot of the facility; the
  subscript raises \<^verbatim>\<open>KeyError\<close> on an unknown spot.
\<close>

definition reserve_spot :: "facility \<Rightarrow> string \<Rightarrow> real \<Rightarrow> real \<Rightarrow> py_error + facility" where
  "reserve_spot fac sid duration now =
     (case map_of (spots fac) sid of
        None \<Rightarrow> Inl KeyError
      | Some spot \<Rightarrow>
          Inr (fac\<lparr>spots := AList.update sid (snd (reserve spot duration now)) (spots fac)\<rparr>))"

definition cancel_spot :: "string \<Rightarrow> facility \<Rightarrow> py_error + facility" where
  "cancel_spot sid fac =
     (case map_of (spots fac) sid of
        None \<Rightarrow> Inl KeyError
      | Some spot \<Rightarrow> Inr (fac\<lparr>spots := AList.update sid (snd (cancel_reservation spot)) (spots fac)\<rparr>))"

text \<open>
  \<^verbatim>\<open>nearest_spot_assignment\<close>. \<open>clk\<close> gives the clock readings of the successive
  \<^verbatim>\<open>reserve\<close> calls (one per vehicle of the batch, by position); the default duration
  of \<^verbatim>\<open>reserve\<close> is 30.
\<close>

fun nearest_loop ::
  "(nat \<Rightarrow> real) \<Rightarrow> nat \<Rightarrow> int \<times> int \<times> int \<Rightarrow> vehicle list \<Rightarrow> assignments \<Rightarrow> facility \<Rightarrow>
   py_error + (assignments \<times> facility)" where
  "nearest_loop clk k pos [] asg fac = Inr (asg, fac)"
| "nearest_loop clk k pos (v # vs) asg fac =
     (case find_nearest_available_spot fac v (Some pos) of
        Inl e \<Rightarrow> Inl e
      | Inr None \<Rightarrow> nearest_loop clk (Suc k) pos vs asg fac
      | Inr (Some sid) \<Rightarrow>
          if sid = [] then nearest_loop clk (Suc k) pos vs asg fac
          else (case reserve_spot fac sid 30 (clk k) of
                  Inl e \<Rightarrow> Inl e
                | Inr fac' \<Rightarrow> nearest_loop clk (Suc k) pos vs (AList.update (v_id v) sid asg) fac'))"

definition nearest_spot_assignment ::
  "facility \<Rightarrow> vehicle list \<Rightarrow> (int \<times> int \<times> int) option \<Rightarrow> (nat \<Rightarrow> real) \<Rightarrow>
   py_error + (assignments \<times> facility)" where
  "nearest_spot_assignment fac vs starting_pos clk =
     (case (case starting_pos of
              None \<Rightarrow> (case entrances (layout fac) of
                          [] \<Rightarrow> Inl IndexError
                        | e # es \<Rightarrow> Inr (0, fst e, snd e))
            | Some p \<Rightarrow> Inr p) of
        Inl e \<Rightarrow> Inl e
      | Inr pos \<Rightarrow>
          (case nearest_loop clk 0 pos vs [] fac of
             Inl e \<Rightarrow> Inl e
           | Inr res \<Rightarrow>
               (case fold_err cancel_spot (map snd (fst res)) (snd res) of
                  Inl e \<Rightarrow> Inl e
                | Inr fac' \<Rightarrow> Inr (fst res, fac'))))"

subsection \<open>Sequences of facility calls\<close>

text \<open>
  A call of \<^verbatim>\<open>assign_vehicle_to_spot\<close> or \<^verbatim>\<open>vacate_spot\<close>, or of \<^verbatim>\<open>reserve\<close> or
  \<^verbatim>\<open>cancel_reservation\<close> on one spot of the facility, with its clock reading. A run
  stops at the first exception.
\<close>

datatype facility_call =
    AssignVehicle vehicle "string option" real
  | VacateSpot string real
  | ReserveSpot string real real
  | CancelSpot string

fun facility_step :: "facility \<Rightarrow> facility_call \<Rightarrow> py_error + facility" where
  "facility_step fac (AssignVehicle v sid_opt now) =
     map_sum id (\<lambda>r. snd (snd r)) (assign_vehicle_to_spot fac v sid_opt now)"
| "facility_step fac (VacateSpot sid now) = map_sum id snd (vacate_spot fac sid now)"
| "facility_step fac (ReserveSpot sid duration now) = reserve_spot fac sid duration now"
| "facility_step fac (CancelSpot sid) = cancel_spot sid fac"

fun facility_run :: "facility \<Rightarrow> facility_call list \<Rightarrow> py_error + facility" where
  "facility_run fac [] = Inr fac"
| "facility_run fac (c # cs) =
     (case facility_step fac c of Inl e \<Rightarrow> Inl e | Inr fac' \<Rightarrow> facility_run fac' cs)"

definition occupied_count :: "facility \<Rightarrow> int" where
  "occupied_count fac = int (length (filter (\<lambda>p. occupied (snd p)) (spots fac)))"

section \<open>Properties\<close>

subsection \<open>The spot state machine\<close>

lemma spot_inv_init: "spot_inv (ParkingSpot sid loc ty fl)"
  by (simp add: spot_inv_def ParkingSpot_def)

lemma spot_step_inv:
  assumes "spot_inv s"
  shows "\<exists>s'. spot_step s c = Inr s' \<and> spot_inv s'"
  using assms
  by (cases c)
     (auto simp: spot_inv_def occupy_def vacate_def reserve_def cancel_reservation_def)

lemma spot_run_inv:
  "spot_inv s \<Longrightarrow> \<exists>s'. spot_run s cs = Inr s' \<and> spot_inv s'"
proof (induction cs arbitrary: s)
  case Nil
  then show ?case by simp
next
  case (Cons c cs)
  from spot_step_inv [OF Cons.prems, of c]
  obtain s1 where s1: "spot_step s c = Inr s1" "spot_inv s1" by blast
  from Cons.IH [OF s1(2)] s1(1) show ?case by simp
qed

text \<open>
  C1. Starting from a freshly constructed spot, every sequence of calls of
  \<^verbatim>\<open>occupy\<close>, \<^verbatim>\<open>vacate\<close>, \<^verbatim>\<open>reserve\<close> and \<^verbatim>\<open>cancel_reservation\<close> runs without
  an exception and ends in a spot whose \<^verbatim>\<open>occupied\<close> and \<^verbatim>\<open>reserved\<close> flags are not
  both set, whose status is one of the three status strings, and whose \<^verbatim>\<open>vehicle_id\<close>
  is set exactly when the status is \<^verbatim>\<open>occupied\<close>.
\<close>

theorem spot_status_invariant:
  "\<exists>s. spot_run (ParkingSpot sid loc ty fl) cs = Inr s \<and>
       \<not> (occupied s \<and> reserved s) \<and>
       get_status s \<in> {''available'', ''reserved'', ''occupied''} \<and>
       ((vehicle_id s \<noteq> None) = (get_status s = ''occupied''))"
proof -
  from spot_run_inv [OF spot_inv_init]
  obtain s where s: "spot_run (ParkingSpot sid loc ty fl) cs = Inr s" "spot_inv s"
    by blast
  from s(2) have "\<not> (occupied s \<and> reserved s)"
    and "(vehicle_id s \<noteq> None) = (get_status s = ''occupied'')"
    by (auto simp: spot_inv_def get_status_def)
  moreover have "get_status s \<in> {''available'', ''reserved'', ''occupied''}"
    by (simp add: get_status_def)
  ultimately show ?thesis using s(1) by blast
qed

subsection \<open>Shortest paths\<close>

lemma is_path_snoc:
  "is_path g (p @ [v]) = (p = [] \<or> (is_path g p \<and> edge g (last p) v))"
proof (induction p rule: is_path.induct)
  case (3 g x y zs)
  then show ?case by auto
qed auto


definition inv_keys :: "nav_graph \<Rightarrow> (node \<rightharpoonup> enat) \<Rightarrow> (node \<rightharpoonup> node option) \<Rightarrow> bool" where
  "inv_keys g D P \<longleftrightarrow> dom D = dom (map_of g) \<and> dom P = dom (map_of g)"

definition inv_start :: "node \<Rightarrow> (node \<rightharpoonup> enat) \<Rightarrow> (node \<rightharpoonup> node option) \<Rightarrow> bool" where
  "inv_start s D P \<longleftrightarrow> D s = Some 0 \<and> P s = Some None"

definition inv_pq :: "(node \<rightharpoonup> enat) \<Rightarrow> (nat \<times> node) list \<Rightarrow> bool" where
  "inv_pq D pq \<longleftrightarrow> (\<forall>d v. (d, v) \<in> set pq \<longrightarrow> (\<exists>dv. D v = Some dv \<and> dv \<le> enat d))"

definition inv_chain ::
  "nav_graph \<Rightarrow> node \<Rightarrow> (node \<rightharpoonup> enat) \<Rightarrow> (node \<rightharpoonup> node option) \<Rightarrow> bool" where
  "inv_chain g s D P \<longleftrightarrow>
     (\<forall>v d. D v = Some (enat d) \<longrightarrow> v \<noteq> s \<longrightarrow>
        (\<exists>w dw. P v = Some (Some w) \<and> edge g w v \<and> D w = Some (enat dw) \<and> dw < d))"

definition inv_unreached :: "(node \<rightharpoonup> enat) \<Rightarrow> (node \<rightharpoonup> node option) \<Rightarrow> bool" where
  "inv_unreached D P \<longleftrightarrow> (\<forall>v. D v = Some \<infinity> \<longrightarrow> P v = Some None)"

definition inv_relaxed ::
  "nav_graph \<Rightarrow> node \<Rightarrow> node set \<Rightarrow> (node \<rightharpoonup> enat) \<Rightarrow> (nat \<times> node) list \<Rightarrow> bool" where
  "inv_relaxed g u X D pq \<longleftrightarrow>
     (\<forall>v d w. D v = Some (enat d) \<longrightarrow> (d, v) \<notin> set pq \<longrightarrow> edge g v w \<longrightarrow>
        (v = u \<longrightarrow> w \<in> X) \<longrightarrow> (\<exists>dw. D w = Some dw \<and> dw \<le> enat (Suc d)))"

definition dinv :: "nav_graph \<Rightarrow> node \<Rightarrow> node \<Rightarrow> node set \<Rightarrow> dstate \<Rightarrow> bool" where
  "dinv g s u X st \<longleftrightarrow>
     inv_keys g (map_of (fst st)) (map_of (fst (snd st))) \<and>
     inv_start s (map_of (fst st)) (map_of (fst (snd st))) \<and>
     inv_pq (map_of (fst st)) (snd (snd st)) \<and>
     inv_chain g s (map_of (fst st)) (map_of (fst (snd st))) \<and>
     inv_unreached (map_of (fst st)) (map_of (fst (snd st))) \<and>
     inv_relaxed g u X (map_of (fst st)) (snd (snd st))"

lemma upd_keys:
  "inv_keys g D P \<Longrightarrow> D v = Some dv \<Longrightarrow> inv_keys g (D(v \<mapsto> x)) (P(v \<mapsto> y))"
  unfolding inv_keys_def by (auto simp: dom_def)

lemma upd_start:
  "inv_start s D P \<Longrightarrow> v \<noteq> s \<Longrightarrow> inv_start s (D(v \<mapsto> x)) (P(v \<mapsto> y))"
  unfolding inv_start_def by simp

lemma upd_pq:
  assumes "inv_pq D pq" "D v = Some dv" "enat n < dv"
  shows "inv_pq (D(v \<mapsto> enat n)) (pq @ [(n, v)])"
  unfolding inv_pq_def
proof (intro allI impI)
  fix d x assume "(d, x) \<in> set (pq @ [(n, v)])"
  then consider "(d, x) = (n, v)" | "(d, x) \<in> set pq" by auto
  then show "\<exists>dv. (D(v \<mapsto> enat n)) x = Some dv \<and> dv \<le> enat d"
  proof cases
    case 1
    then show ?thesis by simp
  next
    case 2
    with assms(1) obtain dx where dx: "D x = Some dx" "dx \<le> enat d"
      unfolding inv_pq_def by blast
    show ?thesis
    proof (cases "x = v")
      case True
      with dx assms(2,3) have "enat n \<le> enat d" by (metis option.inject order_less_imp_le order_trans)
      with True show ?thesis by simp
    next
      case False
      with dx show ?thesis by simp
    qed
  qed
qed

lemma upd_chain:
  assumes "inv_chain g s D P" "D v = Some dv" "enat (Suc d) < dv" "D u = Some (enat d)"
    and "edge g u v"
  shows "inv_chain g s (D(v \<mapsto> enat (Suc d))) (P(v \<mapsto> Some u))"
  unfolding inv_chain_def
proof (intro allI impI)
  fix x dx assume x: "(D(v \<mapsto> enat (Suc d))) x = Some (enat dx)" "x \<noteq> s"
  from assms(2,3,4) have uv: "u \<noteq> v" by auto
  show "\<exists>w dw. (P(v \<mapsto> Some u)) x = Some (Some w) \<and> edge g w x \<and>
               (D(v \<mapsto> enat (Suc d))) w = Some (enat dw) \<and> dw < dx"
  proof (cases "x = v")
    case True
    with x have "dx = Suc d" by simp
    with True uv assms(4,5) show ?thesis by auto
  next
    case False
    with x have "D x = Some (enat dx)" by simp
    with assms(1) x(2) obtain w dw where w: "P x = Some (Some w)" "edge g w x"
      "D w = Some (enat dw)" "dw < dx" unfolding inv_chain_def by blast
    show ?thesis
    proof (cases "w = v")
      case True
      with w assms(2,3) have "Suc d < dw" by simp
      with w True False show ?thesis by auto
    next
      case F2: False
      with w False show ?thesis by auto
    qed
  qed
qed

lemma upd_unreached:
  "inv_unreached D P \<Longrightarrow> inv_unreached (D(v \<mapsto> enat n)) (P(v \<mapsto> y))"
  unfolding inv_unreached_def by auto

lemma upd_relaxed:
  assumes "inv_relaxed g u X D pq" "D v = Some dv" "enat (Suc d) < dv" "D u = Some (enat d)"
  shows "inv_relaxed g u (X \<union> {v}) (D(v \<mapsto> enat (Suc d))) (pq @ [(Suc d, v)])"
  unfolding inv_relaxed_def
proof (intro allI impI)
  fix x dx w
  assume x: "(D(v \<mapsto> enat (Suc d))) x = Some (enat dx)"
    "(dx, x) \<notin> set (pq @ [(Suc d, v)])" "edge g x w" "x = u \<longrightarrow> w \<in> X \<union> {v}"
  from x(1,2) have xv: "x \<noteq> v" by auto
  with x have Dx: "D x = Some (enat dx)" and nq: "(dx, x) \<notin> set pq" by auto
  show "\<exists>dw. (D(v \<mapsto> enat (Suc d))) w = Some dw \<and> dw \<le> enat (Suc dx)"
  proof (cases "w = v")
    case True
    show ?thesis
    proof (cases "x = u")
      case True
      with Dx assms(4) have "dx = d" by simp
      with \<open>w = v\<close> show ?thesis by simp
    next
      case False
      with assms(1) Dx nq x(3) obtain dw where "D w = Some dw" "dw \<le> enat (Suc dx)"
        unfolding inv_relaxed_def by blast
      with True assms(2,3) have "enat (Suc d) < enat (Suc dx)"
        by (metis option.inject order_less_le_trans)
      then have "enat (Suc d) \<le> enat (Suc dx)" by simp
      with True show ?thesis by simp
    qed
  next
    case False
    with x(4) have "x = u \<longrightarrow> w \<in> X" by auto
    with assms(1) Dx nq x(3) obtain dw where "D w = Some dw" "dw \<le> enat (Suc dx)"
      unfolding inv_relaxed_def by blast
    with False show ?thesis by simp
  qed
qed

lemma skip_relaxed:
  assumes "inv_relaxed g u X D pq" "D v = Some dv" "\<not> enat (Suc d) < dv" "D u = Some (enat d)"
  shows "inv_relaxed g u (X \<union> {v}) D pq"
  unfolding inv_relaxed_def
proof (intro allI impI)
  fix x dx w
  assume x: "D x = Some (enat dx)" "(dx, x) \<notin> set pq" "edge g x w" "x = u \<longrightarrow> w \<in> X \<union> {v}"
  show "\<exists>dw. D w = Some dw \<and> dw \<le> enat (Suc dx)"
  proof (cases "x = u \<and> w = v")
    case True
    with x(1) assms(4) have "dx = d" by simp
    with True assms(2,3) show ?thesis by auto
  next
    case False
    with x(4) have "x = u \<longrightarrow> w \<in> X" by auto
    with assms(1) x show ?thesis unfolding inv_relaxed_def by blast
  qed
qed

lemma relax_dinv:
  assumes "dinv g s u X st" "map_of (fst st) u = Some (enat d)"
    and "\<forall>v\<in>set vs. edge g u v" "closed_graph g"
  shows "\<exists>st'. relax d u vs st = Inr st' \<and> dinv g s u (X \<union> set vs) st' \<and>
               map_of (fst st') u = Some (enat d)"
  using assms
proof (induction vs arbitrary: st X)
  case Nil
  then show ?case by simp
next
  case (Cons v vs)
  obtain ds pv pq where st: "st = (ds, pv, pq)" by (cases st)
  from Cons.prems have ev: "edge g u v" by simp
  with Cons.prems(4) have "map_of g v \<noteq> None" by (auto simp: closed_graph_def)
  moreover from Cons.prems(1) st have keys: "inv_keys g (map_of ds) (map_of pv)"
    by (simp add: dinv_def)
  ultimately obtain dv where dv: "map_of ds v = Some dv"
    unfolding inv_keys_def by (metis domD domIff)
  from Cons.prems(2) st have du: "map_of ds u = Some (enat d)" by simp
  from Cons.prems(1) st have I:
    "inv_start s (map_of ds) (map_of pv)" "inv_pq (map_of ds) pq"
    "inv_chain g s (map_of ds) (map_of pv)" "inv_unreached (map_of ds) (map_of pv)"
    "inv_relaxed g u X (map_of ds) pq"
    by (simp_all add: dinv_def)
  show ?case
  proof (cases "enat (d + 1) < dv")
    case True
    then have T: "enat (Suc d) < dv" by simp
    let ?st1 = "(AList.update v (enat (d + 1)) ds, AList.update v (Some u) pv, pq @ [(d + 1, v)])"
    from T dv du have uv: "u \<noteq> v" by auto
    from T dv I(1) have vs: "v \<noteq> s" by (auto simp: inv_start_def zero_enat_def)
    have 1: "dinv g s u (X \<union> {v}) ?st1"
      unfolding dinv_def
      using upd_keys [OF keys dv] upd_start [OF I(1) vs] upd_pq [OF I(2) dv T]
        upd_chain [OF I(3) dv T du ev] upd_unreached [OF I(4)] upd_relaxed [OF I(5) dv T du]
      by (simp add: update_conv')
    have 2: "map_of (fst ?st1) u = Some (enat d)" using du uv by (simp add: update_conv')
    from Cons.IH [OF 1 2] Cons.prems(3,4)
    obtain st' where "relax d u vs ?st1 = Inr st'" "dinv g s u (X \<union> {v} \<union> set vs) st'"
      "map_of (fst st') u = Some (enat d)" by auto
    then show ?thesis using st dv True by simp
  next
    case False
    then have F: "\<not> enat (Suc d) < dv" by simp
    have 1: "dinv g s u (X \<union> {v}) st"
      using Cons.prems(1) skip_relaxed [OF I(5) dv F du] st by (simp add: dinv_def)
    from Cons.IH [OF 1 Cons.prems(2)] Cons.prems(3,4)
    obtain st' where "relax d u vs st = Inr st'" "dinv g s u (X \<union> {v} \<union> set vs) st'"
      "map_of (fst st') u = Some (enat d)" by auto
    then show ?thesis using st dv False by simp
  qed
qed


definition loop_inv :: "nav_graph \<Rightarrow> node \<Rightarrow> dstate \<Rightarrow> bool" where
  "loop_inv g s st = dinv g s s UNIV st"

lemma path_bound:
  assumes "inv_start s D P" "inv_relaxed g u UNIV D pq"
  shows "is_path g p \<Longrightarrow> hd p = s \<Longrightarrow>
         (\<exists>dv. D (last p) = Some dv \<and> dv \<le> enat (length p - 1)) \<or>
         (\<exists>m x. (m, x) \<in> set pq \<and> m < length p - 1)"
proof (induction p rule: rev_induct)
  case Nil
  then show ?case by simp
next
  case (snoc v p)
  show ?case
  proof (cases "p = []")
    case True
    with snoc.prems assms(1) show ?thesis by (simp add: inv_start_def)
  next
    case False
    with snoc.prems have p: "is_path g p" "edge g (last p) v" "hd p = s"
      by (simp_all add: is_path_snoc)
    from snoc.IH [OF p(1,3)] show ?thesis
    proof
      assume "\<exists>dv. D (last p) = Some dv \<and> dv \<le> enat (length p - 1)"
      then obtain m where m: "D (last p) = Some (enat m)" "m \<le> length p - 1"
        by (metis enat_ile enat_ord_simps(1))
      show ?thesis
      proof (cases "(m, last p) \<in> set pq")
        case True
        moreover from m(2) False have "m < length (p @ [v]) - 1" by (cases p) auto
        ultimately show ?thesis by blast
      next
        case F: False
        with assms(2) m(1) p(2) obtain dw where "D v = Some dw" "dw \<le> enat (Suc m)"
          unfolding inv_relaxed_def by blast
        moreover from m(2) False have "enat (Suc m) \<le> enat (length (p @ [v]) - 1)"
          by (cases p) auto
        ultimately show ?thesis by (auto intro: order_trans)
      qed
    next
      assume "\<exists>m x. (m, x) \<in> set pq \<and> m < length p - 1"
      then show ?thesis by auto
    qed
  qed
qed

definition final :: "nav_graph \<Rightarrow> node \<Rightarrow> node \<Rightarrow> dstate \<Rightarrow> bool" where
  "final g s t st \<longleftrightarrow>
     inv_keys g (map_of (fst st)) (map_of (fst (snd st))) \<and>
     inv_start s (map_of (fst st)) (map_of (fst (snd st))) \<and>
     inv_chain g s (map_of (fst st)) (map_of (fst (snd st))) \<and>
     inv_unreached (map_of (fst st)) (map_of (fst (snd st))) \<and>
     (\<forall>p. connects g s t p \<longrightarrow>
        (\<exists>dt. map_of (fst st) t = Some dt \<and> dt \<le> enat (length p - 1)))"

lemma min_list_le: "x \<in> set xs \<Longrightarrow> min_list xs \<le> (x :: 'a::linorder)"
  by (cases "xs = []") (simp_all add: min_list_Min)

lemma loop_inv_stale:
  assumes "loop_inv g s (ds, pv, pq)" "map_of ds (snd cur) = Some dcur" "dcur < enat (fst cur)"
  shows "loop_inv g s (ds, pv, remove1 cur pq)"
proof -
  from assms(1) have I: "inv_pq (map_of ds) pq" "inv_relaxed g s UNIV (map_of ds) pq"
    by (simp_all add: loop_inv_def dinv_def)
  have 1: "inv_pq (map_of ds) (remove1 cur pq)"
    using I(1) unfolding inv_pq_def by (meson notin_set_remove1)
  have 2: "inv_relaxed g s UNIV (map_of ds) (remove1 cur pq)"
    unfolding inv_relaxed_def
  proof (intro allI impI)
    fix x dx w
    assume x: "map_of ds x = Some (enat dx)" "(dx, x) \<notin> set (remove1 cur pq)" "edge g x w"
    from x(1) assms(2,3) have "(dx, x) \<noteq> cur" by auto
    with x(2) have "(dx, x) \<notin> set pq" by simp
    with I(2) x show "\<exists>dw. map_of ds w = Some dw \<and> dw \<le> enat (Suc dx)"
      unfolding inv_relaxed_def by blast
  qed
  from assms(1) 1 2 show ?thesis by (simp add: loop_inv_def dinv_def)
qed

lemma loop_inv_pop:
  assumes "loop_inv g s (ds, pv, pq)" "map_of ds u = Some (enat d)"
  shows "dinv g s u {} (ds, pv, remove1 (d, u) pq)"
proof -
  from assms(1) have I: "inv_pq (map_of ds) pq" "inv_relaxed g s UNIV (map_of ds) pq"
    by (simp_all add: loop_inv_def dinv_def)
  have 1: "inv_pq (map_of ds) (remove1 (d, u) pq)"
    using I(1) unfolding inv_pq_def by (meson notin_set_remove1)
  have 2: "inv_relaxed g u {} (map_of ds) (remove1 (d, u) pq)"
    unfolding inv_relaxed_def
  proof (intro allI impI)
    fix x dx w
    assume x: "map_of ds x = Some (enat dx)" "(dx, x) \<notin> set (remove1 (d, u) pq)" "edge g x w"
      "x = u \<longrightarrow> w \<in> {}"
    from x(4) have "(dx, x) \<noteq> (d, u)" by auto
    with x(2) have "(dx, x) \<notin> set pq" by simp
    with I(2) x show "\<exists>dw. map_of ds w = Some dw \<and> dw \<le> enat (Suc dx)"
      unfolding inv_relaxed_def by blast
  qed
  from assms(1) 1 2 show ?thesis by (simp add: loop_inv_def dinv_def)
qed

lemma dinv_done:
  assumes "dinv g s u (set ns) st" "map_of g u = Some ns"
  shows "loop_inv g s st"
proof -
  from assms(1) have I: "inv_relaxed g u (set ns) (map_of (fst st)) (snd (snd st))"
    by (simp add: dinv_def)
  have "inv_relaxed g s UNIV (map_of (fst st)) (snd (snd st))"
    unfolding inv_relaxed_def
  proof (intro allI impI)
    fix x dx w
    assume x: "map_of (fst st) x = Some (enat dx)" "(dx, x) \<notin> set (snd (snd st))" "edge g x w"
    from x(3) assms(2) have "x = u \<longrightarrow> w \<in> set ns" by (auto simp: edge_def)
    with I x show "\<exists>dw. map_of (fst st) w = Some dw \<and> dw \<le> enat (Suc dx)"
      unfolding inv_relaxed_def by blast
  qed
  with assms(1) show ?thesis by (simp add: loop_inv_def dinv_def)
qed

lemma final_empty:
  assumes "loop_inv g s (ds, pv, [])"
  shows "final g s t (ds, pv, [])"
proof -
  from assms have I: "inv_start s (map_of ds) (map_of pv)" "inv_relaxed g s UNIV (map_of ds) []"
    by (simp_all add: loop_inv_def dinv_def)
  have "\<exists>dt. map_of ds t = Some dt \<and> dt \<le> enat (length p - 1)" if "connects g s t p" for p
    using path_bound [OF I, of p] that by (auto simp: connects_def)
  with assms show ?thesis by (simp add: final_def loop_inv_def dinv_def)
qed

lemma final_target:
  assumes "loop_inv g s (ds, pv, pq)" "pq \<noteq> []" "snd (min_list pq) = t"
  shows "final g s t (ds, pv, pq')"
proof -
  from assms(1) have I: "inv_start s (map_of ds) (map_of pv)" "inv_relaxed g s UNIV (map_of ds) pq"
    and Q: "inv_pq (map_of ds) pq"
    by (simp_all add: loop_inv_def dinv_def)
  obtain d where cur: "min_list pq = (d, t)" using assms(3) by (cases "min_list pq") auto
  with assms(2) have "(d, t) \<in> set pq" using min_list_in [of pq] by simp
  with Q obtain dt where dt: "map_of ds t = Some dt" "dt \<le> enat d"
    unfolding inv_pq_def by blast
  have "\<exists>dt. map_of ds t = Some dt \<and> dt \<le> enat (length p - 1)" if "connects g s t p" for p
  proof -
    from that have p: "is_path g p" "hd p = s" "last p = t" by (simp_all add: connects_def)
    from path_bound [OF I p(1,2)] show ?thesis
    proof
      assume "\<exists>dv. map_of ds (last p) = Some dv \<and> dv \<le> enat (length p - 1)"
      with p(3) show ?thesis by simp
    next
      assume "\<exists>m x. (m, x) \<in> set pq \<and> m < length p - 1"
      then obtain m x where mx: "(m, x) \<in> set pq" "m < length p - 1" by blast
      from min_list_le [OF mx(1)] cur have "d \<le> m" by (auto simp: less_eq_prod_def)
      with mx(2) dt show ?thesis by (auto intro: order_trans)
    qed
  qed
  with assms(1) show ?thesis by (simp add: final_def loop_inv_def dinv_def)
qed

lemma dijkstra_loop_final:
  "loop_inv g s st \<Longrightarrow> closed_graph g \<Longrightarrow>
   \<exists>st'. dijkstra_loop g t st = Inr st' \<and> final g s t st'"
proof (induction g t st rule: dijkstra_loop.induct)
  case (1 g target distances previous pq)
  show ?case
  proof (cases "pq = []")
    case True
    with final_empty [of g s distances previous target] "1.prems" show ?thesis by simp
  next
    case False
    define cur where "cur = min_list pq"
    define pq' where "pq' = remove1 cur pq"
    from False have cin: "cur \<in> set pq" unfolding cur_def by (rule min_list_in)
    show ?thesis
    proof (cases "snd cur = target")
      case True
      with final_target [OF "1.prems"(1) False, of target pq'] False show ?thesis
        by (simp add: cur_def pq'_def Let_def)
    next
      case nt: False
      from "1.prems"(1) have Q: "inv_pq (map_of distances) pq"
        and K: "inv_keys g (map_of distances) (map_of previous)"
        by (simp_all add: loop_inv_def dinv_def)
      from Q cin obtain dcur where dcur: "map_of distances (snd cur) = Some dcur"
        "dcur \<le> enat (fst cur)" unfolding inv_pq_def by (metis prod.collapse)
      show ?thesis
      proof (cases "dcur < enat (fst cur)")
        case True
        from loop_inv_stale [OF "1.prems"(1) dcur(1) True]
        have "loop_inv g s (distances, previous, pq')" by (simp add: pq'_def)
        from "1.IH"(1) [OF False cur_def pq'_def nt dcur(1) True this "1.prems"(2)]
        show ?thesis using False nt dcur True by (simp add: cur_def pq'_def Let_def)
      next
        case fresh: False
        with dcur have deq: "map_of distances (snd cur) = Some (enat (fst cur))" by simp
        from K dcur(1) obtain ns where ns: "map_of g (snd cur) = Some ns"
          unfolding inv_keys_def by (metis domD domI)
        from loop_inv_pop [OF "1.prems"(1) deq]
        have pre: "dinv g s (snd cur) {} (distances, previous, pq')" by (simp add: pq'_def)
        have "\<forall>v\<in>set ns. edge g (snd cur) v" using ns by (simp add: edge_def)
        from relax_dinv [OF pre _ this "1.prems"(2), of "fst cur"] deq
        obtain st' where st': "relax (fst cur) (snd cur) ns (distances, previous, pq') = Inr st'"
          "dinv g s (snd cur) (set ns) st'" by auto
        from dinv_done [OF st'(2) ns] have "loop_inv g s st'" .
        from "1.IH"(2) [OF False cur_def pq'_def nt dcur(1) fresh ns st'(1) this "1.prems"(2)]
        show ?thesis using False nt dcur fresh ns st'(1) by (simp add: cur_def pq'_def Let_def)
      qed
    qed
  qed
qed


lemma map_of_const_keys:
  "map_of (map (\<lambda>node. (node, c)) ks) x = (if x \<in> set ks then Some c else None)"
  by (induction ks) auto

lemma loop_inv_init:
  assumes "map_of g s \<noteq> None"
  shows "loop_inv g s (AList.update s 0 (map (\<lambda>node. (node, \<infinity>)) (map fst g)),
                       map (\<lambda>node. (node, None)) (map fst g), [(0, s)])"
proof -
  let ?D = "map_of (AList.update s (0::enat) (map (\<lambda>node. (node, \<infinity>)) (map fst g)))"
  let ?P = "map_of (map (\<lambda>node. (node, None :: node option)) (map fst g))"
  from assms have sk: "s \<in> fst ` set g" by (simp add: map_of_eq_None_iff)
  have D: "?D x = (if x = s then Some 0 else if x \<in> fst ` set g then Some \<infinity> else None)" for x
    by (simp add: update_conv' map_of_const_keys del: map_map)
  have P: "?P x = (if x \<in> fst ` set g then Some None else None)" for x
    by (simp add: map_of_const_keys del: map_map)
  have "dom ?D = fst ` set g" using sk by (auto simp only: dom_def D split: if_splits)
  moreover have "dom ?P = fst ` set g" by (auto simp only: dom_def P split: if_splits)
  ultimately have 1: "inv_keys g ?D ?P"
    by (simp only: inv_keys_def dom_map_of_conv_image_fst)
  have 2: "inv_start s ?D ?P" unfolding inv_start_def D P using sk by simp
  have 3: "inv_pq ?D [(0, s)]" unfolding inv_pq_def D by (simp add: zero_enat_def)
  have 4: "inv_chain g s ?D ?P" unfolding inv_chain_def D by (auto split: if_splits)
  have 5: "inv_unreached ?D ?P" unfolding inv_unreached_def D P by (auto split: if_splits)
  have 6: "inv_relaxed g s UNIV ?D [(0, s)]"
    unfolding inv_relaxed_def D by (auto simp: zero_enat_def split: if_splits)
  from 1 2 3 4 5 6 show ?thesis by (simp only: loop_inv_def dinv_def fst_conv snd_conv)
qed

lemma chain_path:
  assumes "inv_keys g (map_of ds) (map_of pv)" "inv_start s (map_of ds) (map_of pv)"
    and "inv_chain g s (map_of ds) (map_of pv)" "closed_graph g"
  shows "map_of ds v = Some (enat d) \<Longrightarrow>
         \<exists>q. connects g s v q \<and> length q \<le> Suc d \<and> distinct q \<and> set q \<subseteq> dom (map_of pv) \<and>
             (\<forall>x\<in>set q. \<exists>dx\<le>d. map_of ds x = Some (enat dx)) \<and>
             (\<forall>fuel acc. length q \<le> fuel \<longrightarrow>
                reconstruct fuel pv (Some v) acc = Inr (acc @ rev q))"
proof (induction d arbitrary: v rule: less_induct)
  case (less d)
  from less.prems assms(1) have "map_of g v \<noteq> None" unfolding inv_keys_def by (metis domI domIff)
  with assms(4) have vne: "v \<noteq> []" by (auto simp: closed_graph_def)
  show ?case
  proof (cases "v = s")
    case True
    from assms(2) have Ps: "map_of pv s = Some None" and Ds: "map_of ds s = Some 0"
      by (simp_all add: inv_start_def)
    have "reconstruct fuel pv (Some v) acc = Inr (acc @ rev [s])" if "length [s] \<le> fuel"
      for fuel acc
      using that True vne Ps by (cases fuel) simp_all
    moreover have "connects g s v [s]" using True by (simp add: connects_def)
    moreover have "set [s] \<subseteq> dom (map_of pv)" using Ps by auto
    moreover have "\<forall>x\<in>set [s]. \<exists>dx\<le>d. map_of ds x = Some (enat dx)"
      using Ds by (simp add: zero_enat_def)
    ultimately show ?thesis by (intro exI [of _ "[s]"]) simp
  next
    case False
    with assms(3) less.prems obtain w dw where w: "map_of pv v = Some (Some w)" "edge g w v"
      "map_of ds w = Some (enat dw)" "dw < d" unfolding inv_chain_def by blast
    from less.IH [OF w(4,3)] obtain q where q: "connects g s w q" "length q \<le> Suc dw"
      "distinct q" "set q \<subseteq> dom (map_of pv)"
      "\<forall>x\<in>set q. \<exists>dx\<le>dw. map_of ds x = Some (enat dx)"
      "\<forall>fuel acc. length q \<le> fuel \<longrightarrow> reconstruct fuel pv (Some w) acc = Inr (acc @ rev q)"
      by blast
    from q(1) have qne: "q \<noteq> []" by (auto simp: connects_def)
    have 1: "connects g s v (q @ [v])"
      using q(1) w(2) qne by (simp add: connects_def is_path_snoc)
    have 2: "length (q @ [v]) \<le> Suc d" using q(2) w(4) by simp
    have "v \<notin> set q"
    proof
      assume "v \<in> set q"
      with q(5) obtain dx where "dx \<le> dw" "map_of ds v = Some (enat dx)" by blast
      with less.prems w(4) show False by simp
    qed
    with q(3) have 3: "distinct (q @ [v])" by simp
    have 4: "set (q @ [v]) \<subseteq> dom (map_of pv)" using q(4) w(1) by auto
    have 5: "\<forall>x\<in>set (q @ [v]). \<exists>dx\<le>d. map_of ds x = Some (enat dx)"
      using q(5) w(4) less.prems by (auto intro: order_trans less_imp_le)
    have 6: "reconstruct fuel pv (Some v) acc = Inr (acc @ rev (q @ [v]))"
      if "length (q @ [v]) \<le> fuel" for fuel acc
    proof -
      from that obtain n where n: "fuel = Suc n" "length q \<le> n" by (cases fuel) auto
      with q(6) have "reconstruct n pv (Some w) (acc @ [v]) = Inr ((acc @ [v]) @ rev q)" by blast
      with n vne w(1) show ?thesis by simp
    qed
    from 1 2 3 4 5 6 show ?thesis by blast
  qed
qed

lemma distinct_keys_length:
  assumes "distinct q" "set q \<subseteq> dom (map_of pv)"
  shows "length q \<le> length pv"
proof -
  have "length q = card (set q)" using assms(1) by (simp add: distinct_card)
  also have "\<dots> \<le> card (fst ` set pv)"
    using assms(2) by (intro card_mono) (simp_all add: dom_map_of_conv_image_fst)
  also have "\<dots> \<le> card (set pv)" by (rule card_image_le) simp
  also have "\<dots> \<le> length pv" by (rule card_length)
  finally show ?thesis .
qed

lemma dijkstra_reachable:
  assumes "closed_graph g" "map_of g s \<noteq> None" "connects g s t p0"
  shows "\<exists>d p. dijkstra g s t = Inr (enat d, p) \<and> connects g s t p \<and> length p = Suc d \<and>
               (\<forall>q. connects g s t q \<longrightarrow> Suc d \<le> length q)"
proof -
  from dijkstra_loop_final [OF loop_inv_init [OF assms(2)] assms(1), of t]
  obtain ds pv pq where L: "dijkstra_loop g t
       (AList.update s 0 (map (\<lambda>node. (node, \<infinity>)) (map fst g)),
        map (\<lambda>node. (node, None)) (map fst g), [(0, s)]) = Inr (ds, pv, pq)"
    and F: "final g s t (ds, pv, pq)" by (metis prod_cases3)
  from F have I: "inv_keys g (map_of ds) (map_of pv)" "inv_start s (map_of ds) (map_of pv)"
    "inv_chain g s (map_of ds) (map_of pv)"
    and M: "\<And>p. connects g s t p \<Longrightarrow> \<exists>dt. map_of ds t = Some dt \<and> dt \<le> enat (length p - 1)"
    by (simp_all add: final_def)
  from M [OF assms(3)] obtain d where d: "map_of ds t = Some (enat d)"
    by (metis enat_ile)
  from chain_path [OF I assms(1) d] obtain q where q: "connects g s t q" "length q \<le> Suc d"
    "distinct q" "set q \<subseteq> dom (map_of pv)"
    "\<forall>fuel acc. length q \<le> fuel \<longrightarrow> reconstruct fuel pv (Some t) acc = Inr (acc @ rev q)"
    by blast
  have min: "Suc d \<le> length q'" if "connects g s t q'" for q'
  proof -
    from M [OF that] d have "d \<le> length q' - 1" by simp
    moreover from that have "q' \<noteq> []" by (auto simp: connects_def)
    ultimately show ?thesis by (cases q') auto
  qed
  from min [OF q(1)] q(2) have len: "length q = Suc d" by simp
  from distinct_keys_length [OF q(3,4)] q(5)
  have "reconstruct (Suc (length pv)) pv (Some t) [] = Inr (rev q)" by simp
  with L d have "dijkstra g s t = Inr (enat d, q)" by (simp add: dijkstra_def)
  with q(1) len min show ?thesis by blast
qed

lemma dijkstra_unreachable:
  assumes "closed_graph g" "map_of g s \<noteq> None" "map_of g t \<noteq> None"
    and "\<not> (\<exists>p. connects g s t p)"
  shows "dijkstra g s t = Inr (\<infinity>, [t])"
proof -
  from dijkstra_loop_final [OF loop_inv_init [OF assms(2)] assms(1), of t]
  obtain ds pv pq where L: "dijkstra_loop g t
       (AList.update s 0 (map (\<lambda>node. (node, \<infinity>)) (map fst g)),
        map (\<lambda>node. (node, None)) (map fst g), [(0, s)]) = Inr (ds, pv, pq)"
    and F: "final g s t (ds, pv, pq)" by (metis prod_cases3)
  from F have I: "inv_keys g (map_of ds) (map_of pv)" "inv_start s (map_of ds) (map_of pv)"
    "inv_chain g s (map_of ds) (map_of pv)" and U: "inv_unreached (map_of ds) (map_of pv)"
    by (simp_all add: final_def)
  from I(1) assms(3) obtain x where x: "map_of ds t = Some x"
    unfolding inv_keys_def by (metis domD domIff)
  have "x = \<infinity>"
  proof (cases x)
    case (enat d)
    with chain_path [OF I assms(1), of t d] x assms(4) show ?thesis by blast
  qed simp
  with x U have P: "map_of pv t = Some None" by (simp add: inv_unreached_def)
  from assms(1,3) have "t \<noteq> []" by (auto simp: closed_graph_def)
  with P have "reconstruct (Suc (length pv)) pv (Some t) [] = Inr [t]" by simp
  with L x \<open>x = \<infinity>\<close> show ?thesis by (simp add: dijkstra_def)
qed


end
